theory Spec2Isabelle
  imports Main "HOL-Library.Word" "HOL-Library.Multiset" "HOL-Library.Sublist" "HOL-Library.AList"
begin

section \<open>Data model\<close>

text \<open>
  The C++ type \<^verbatim>\<open>char\<close> is one byte, which is what \<^typ>\<open>char\<close> is; a
  \<^verbatim>\<open>std::string\<close> is a \<^typ>\<open>string\<close>. The C++ type \<^verbatim>\<open>int\<close> of the
  frequencies is a signed 32-bit word: \<open>+\<close> on it wraps (signed overflow is undefined
  in C++ and wraps on the usual targets), and it is compared as a signed number.
  The sizes of strings and the positions in them, which the sources also hold in
  \<^verbatim>\<open>int\<close>, are natural numbers: the model is of strings shorter than \<open>2\<^sup>3\<^sup>1\<close>
  characters, whose sizes and positions fit.
\<close>

type_synonym cint = "32 word"

text \<open>
  Modelled from the spec: the class \<^verbatim>\<open>HuffmanTreeNode\<close> and \<^verbatim>\<open>NodeComparator\<close> of
  \<^verbatim>\<open>HuffmanTreeNode.h\<close>, a header that the sources include and use but that is not
  among them. The spec's TreeNode holds a symbol, a frequency and two owned edges
  \<open>left\<close> and \<open>right\<close>; the sources build nodes with
  \<^verbatim>\<open>HuffmanTreeNode(val, freq)\<close> (no children) and
  \<^verbatim>\<open>HuffmanTreeNode(val, freq, left, right)\<close>, read them with \<^verbatim>\<open>get_val\<close>,
  \<^verbatim>\<open>get_freq\<close>, \<^verbatim>\<open>get_left\<close>, \<^verbatim>\<open>get_right\<close>, and pass null pointers for
  absent children. A value of the type below is a \<^verbatim>\<open>HuffmanTreeNode*\<close>: the null
  pointer, or a node that owns what its two child pointers point to.
\<close>

datatype HuffmanTreeNode =
  Nullptr
| Node (get_val: char) (get_freq: cint) (get_left: HuffmanTreeNode) (get_right: HuffmanTreeNode)

text \<open>
  Modelled from the spec: \<^verbatim>\<open>HuffmanTreeNode::isLeaf\<close>, ``a node is a leaf iff it has
  zero children''. It is a member function, so it has no value on the null pointer.
\<close>

fun isLeaf :: "HuffmanTreeNode \<Rightarrow> bool" where
  "isLeaf (Node val freq left right) = (left = Nullptr \<and> right = Nullptr)"

text \<open>
  Modelled from the spec: \<^verbatim>\<open>NodeComparator\<close>, the ordering of the priority queue, a
  ``min-priority collection keyed by frequency''. As the \<^verbatim>\<open>Compare\<close> of a
  \<^verbatim>\<open>std::priority_queue\<close> it is the ``comes later than'' relation: the queue's top is
  an element that no other element comes before.
\<close>

definition NodeComparator :: "HuffmanTreeNode \<Rightarrow> HuffmanTreeNode \<Rightarrow> bool" where
  "NodeComparator a b = (get_freq b <s get_freq a)"

text \<open>
  What the sources throw: \<^verbatim>\<open>std::runtime_error\<close> with its message,
  \<^verbatim>\<open>std::out_of_range\<close> from \<^verbatim>\<open>unordered_map::at\<close>; and what they do without a
  defined meaning: calling a member function through a null pointer.
\<close>

datatype error =
  Runtime_error string
| Out_of_range
| Null_dereference

text \<open>
  A \<^verbatim>\<open>std::unordered_map\<close> is a list of entries with distinct keys. The order of the
  list is the map's iteration order, which C++ leaves open; no result below depends on
  it. \<^verbatim>\<open>m[k] = v\<close> is \<^const>\<open>AList.update\<close>, \<^verbatim>\<open>m.at(k)\<close> is \<^const>\<open>map_of\<close>
  (throwing on \<^const>\<open>None\<close>), \<^verbatim>\<open>m.size()\<close> is \<^const>\<open>length\<close>.
\<close>

type_synonym ('k, 'v) unordered_map = "('k \<times> 'v) list"

section \<open>Serialization\<close>

text \<open>\<^verbatim>\<open>HuffmanCoder::serializeHuffmanTree\<close> (HuffmanCoder.cpp, 255-264).\<close>

fun serializeHuffmanTree :: "HuffmanTreeNode \<Rightarrow> string" where
  "serializeHuffmanTree Nullptr = []"
| "serializeHuffmanTree (Node val freq left right) =
     (if isLeaf (Node val freq left right) then ''L'' @ [val]
      else ''I'' @ serializeHuffmanTree left @ serializeHuffmanTree right)"


text \<open>
  \<^verbatim>\<open>s[i]\<close> on a \<^verbatim>\<open>const std::string\<close>: the character at \<open>i\<close>, and the
  terminating \<^verbatim>\<open>'\0'\<close> at \<open>i = s.size()\<close>. The sources never read further.
\<close>

definition string_at :: "string \<Rightarrow> nat \<Rightarrow> char" where
  "string_at s i = (if i < length s then s ! i else CHR 0x00)"

text \<open>
  \<^verbatim>\<open>HuffmanCoder::deserializeHuffmanTreeHelper\<close> (HuffmanCoder.cpp, 305-323). The
  reference parameter \<^verbatim>\<open>index\<close> is passed in and returned.
\<close>

function deserializeHuffmanTreeHelper :: "string \<Rightarrow> nat \<Rightarrow> HuffmanTreeNode \<times> nat" where
  "deserializeHuffmanTreeHelper serialized_tree index =
     (if index \<ge> length serialized_tree then (Nullptr, index)
      else if string_at serialized_tree index = CHR ''L''
      then (Node (string_at serialized_tree (index + 1)) 0 Nullptr Nullptr, index + 2)
      else
        (case deserializeHuffmanTreeHelper serialized_tree (index + 1) of (left, index1) \<Rightarrow>
         case deserializeHuffmanTreeHelper serialized_tree index1 of (right, index2) \<Rightarrow>
           (Node (CHR 0x00) 0 left right, index2)))"
  by pat_completeness auto

lemma deserializeHuffmanTreeHelper_index:
  "deserializeHuffmanTreeHelper_dom (s, i) \<Longrightarrow> i \<le> snd (deserializeHuffmanTreeHelper s i)"
proof (induction s i rule: deserializeHuffmanTreeHelper.pinduct)
  case (1 s i)
  show ?case
  proof (cases "length s \<le> i \<or> string_at s i = CHR ''L''")
    case True
    then show ?thesis
      using "1.hyps" by (auto simp: deserializeHuffmanTreeHelper.psimps)
  next
    case False
    obtain l i1 where a: "deserializeHuffmanTreeHelper s (i + 1) = (l, i1)"
      by (cases "deserializeHuffmanTreeHelper s (i + 1)")
    obtain r i2 where b: "deserializeHuffmanTreeHelper s i1 = (r, i2)"
      by (cases "deserializeHuffmanTreeHelper s i1")
    from False a have "i + 1 \<le> i1"
      using "1.IH"(1) by auto
    moreover from False a b have "i1 \<le> i2"
      using "1.IH"(2) [OF _ _ a [symmetric]] by auto
    ultimately show ?thesis
      using False a b "1.hyps" by (simp add: deserializeHuffmanTreeHelper.psimps)
  qed
qed

termination deserializeHuffmanTreeHelper
  apply (relation "measure (\<lambda>(s, i). length s - i)")
    apply simp
   apply simp
  subgoal for s i l i1
    using deserializeHuffmanTreeHelper_index [of s "i + 1"]
    by (cases "deserializeHuffmanTreeHelper s (Suc i)") auto
  done

declare deserializeHuffmanTreeHelper.simps [simp del]

text \<open>\<^verbatim>\<open>HuffmanCoder::deserializeHuffmanTree\<close> (HuffmanCoder.cpp, 278-286).\<close>

definition deserializeHuffmanTree :: "string \<Rightarrow> HuffmanTreeNode" where
  "deserializeHuffmanTree serialized_tree =
     (if serialized_tree = [] then Nullptr
      else fst (deserializeHuffmanTreeHelper serialized_tree 0))"

text \<open>
  \<^verbatim>\<open>deserialize_tree\<close> with its cursor (phaseOne.cpp, 31-46) and its wrapper
  (phaseOne.cpp, 49-52). The nodes it builds carry frequency 1.
\<close>

function deserialize_tree_pos :: "string \<Rightarrow> nat \<Rightarrow> HuffmanTreeNode \<times> nat" where
  "deserialize_tree_pos serial_tree pos =
     (if pos \<ge> length serial_tree then (Nullptr, pos)
      else if string_at serial_tree pos = CHR ''L''
      then (Node (string_at serial_tree (pos + 1)) 1 Nullptr Nullptr, pos + 2)
      else
        (case deserialize_tree_pos serial_tree (pos + 1) of (left, pos1) \<Rightarrow>
         case deserialize_tree_pos serial_tree pos1 of (right, pos2) \<Rightarrow>
           (Node (CHR 0x00) 1 left right, pos2)))"
  by pat_completeness auto

lemma deserialize_tree_pos_index:
  "deserialize_tree_pos_dom (s, i) \<Longrightarrow> i \<le> snd (deserialize_tree_pos s i)"
proof (induction s i rule: deserialize_tree_pos.pinduct)
  case (1 s i)
  show ?case
  proof (cases "length s \<le> i \<or> string_at s i = CHR ''L''")
    case True
    then show ?thesis
      using "1.hyps" by (auto simp: deserialize_tree_pos.psimps)
  next
    case False
    obtain l i1 where a: "deserialize_tree_pos s (i + 1) = (l, i1)"
      by (cases "deserialize_tree_pos s (i + 1)")
    obtain r i2 where b: "deserialize_tree_pos s i1 = (r, i2)"
      by (cases "deserialize_tree_pos s i1")
    from False a have "i + 1 \<le> i1"
      using "1.IH"(1) by auto
    moreover from False a b have "i1 \<le> i2"
      using "1.IH"(2) [OF _ _ a [symmetric]] by auto
    ultimately show ?thesis
      using False a b "1.hyps" by (simp add: deserialize_tree_pos.psimps)
  qed
qed

termination deserialize_tree_pos
  apply (relation "measure (\<lambda>(s, i). length s - i)")
    apply simp
   apply simp
  subgoal for s i l i1
    using deserialize_tree_pos_index [of s "i + 1"]
    by (cases "deserialize_tree_pos s (Suc i)") auto
  done

declare deserialize_tree_pos.simps [simp del]


section \<open>Frequencies and tree construction\<close>

text \<open>
  \<^verbatim>\<open>HuffmanCoder::countCharFrequencies\<close> (HuffmanCoder.cpp, 137-152), on the contents
  of the file: \<^verbatim>\<open>char_frequencies[c]++\<close> for each character, where \<^verbatim>\<open>operator[]\<close>
  inserts a zero for a new key.
\<close>

definition increment :: "(char, cint) unordered_map \<Rightarrow> char \<Rightarrow> (char, cint) unordered_map" where
  "increment char_frequencies c =
     AList.update c ((case map_of char_frequencies c of None \<Rightarrow> 0 | Some n \<Rightarrow> n) + 1)
       char_frequencies"

definition countCharFrequencies :: "string \<Rightarrow> (char, cint) unordered_map" where
  "countCharFrequencies contents = foldl increment [] contents"

text \<open>
  \<^verbatim>\<open>std::priority_queue::top\<close>: an element of the queue that the comparator puts
  before no other. Which one is returned among several such elements depends on the
  heap algorithm of the standard library and on the order of insertion, so the model
  leaves it open: the queue is the list of its elements, in no particular order.
\<close>

inductive pq_top :: "HuffmanTreeNode list \<Rightarrow> HuffmanTreeNode \<Rightarrow> bool" where
  top: "x \<in> set pq \<Longrightarrow> \<forall>y \<in> set pq. \<not> NodeComparator x y \<Longrightarrow> pq_top pq x"

text \<open>For evaluation, the candidates for the top are enumerated from the queue.\<close>

lemma pq_top_enum [code_pred_intro]:
  "Predicate_Compile.contains (set pq) x \<Longrightarrow> list_all (\<lambda>y. \<not> NodeComparator x y) pq \<Longrightarrow>
   pq_top pq x"
  by (simp add: Predicate_Compile.contains_def pq_top.simps list_all_iff)

code_pred (modes: i \<Rightarrow> o \<Rightarrow> bool, i \<Rightarrow> i \<Rightarrow> bool) pq_top
  by (auto simp: Predicate_Compile.contains_def pq_top.simps list_all_iff)

text \<open>
  \<^verbatim>\<open>HuffmanCoder::buildHuffmanTree\<close> (HuffmanCoder.cpp, 165-188). The loop
  \<^verbatim>\<open>while (pq.size() > 1)\<close> and the final \<^verbatim>\<open>return pq.top()\<close> form a relation
  between the queue and the root returned, one derivation for each way the queue
  may break ties. On an empty queue \<^verbatim>\<open>pq.top()\<close> has no defined result, and the
  relation holds for no root.
\<close>

inductive buildHuffmanTree_loop :: "HuffmanTreeNode list \<Rightarrow> HuffmanTreeNode \<Rightarrow> bool" where
  exit: "\<not> length pq > 1 \<Longrightarrow> pq_top pq root \<Longrightarrow> buildHuffmanTree_loop pq root"
| iter: "length pq > 1 \<Longrightarrow> pq_top pq left \<Longrightarrow> pq_top (remove1 left pq) right \<Longrightarrow>
     buildHuffmanTree_loop
       (Node (CHR 0x00) (get_freq left + get_freq right) left right
          # remove1 right (remove1 left pq)) root \<Longrightarrow>
     buildHuffmanTree_loop pq root"

code_pred (modes: i \<Rightarrow> o \<Rightarrow> bool, i \<Rightarrow> i \<Rightarrow> bool) buildHuffmanTree_loop .

definition buildHuffmanTree :: "(char, cint) unordered_map \<Rightarrow> HuffmanTreeNode \<Rightarrow> bool" where
  "buildHuffmanTree char_frequencies root =
     buildHuffmanTree_loop (map (\<lambda>(c, f). Node c f Nullptr Nullptr) char_frequencies) root"

section \<open>Codes, encoding and decoding\<close>

text \<open>
  \<^verbatim>\<open>HuffmanCoder::generateCharCodes\<close> (HuffmanCoder.cpp, 206-218). The map passed by
  reference is passed in and returned.
\<close>

fun generateCharCodes ::
  "HuffmanTreeNode \<Rightarrow> (char, string) unordered_map \<Rightarrow> string \<Rightarrow> (char, string) unordered_map"
where
  "generateCharCodes Nullptr char_codes code = char_codes"
| "generateCharCodes (Node val freq left right) char_codes code =
     (if isLeaf (Node val freq left right) then AList.update val code char_codes
      else generateCharCodes right (generateCharCodes left char_codes (code @ ''0''))
             (code @ ''1''))"

text \<open>\<^verbatim>\<open>HuffmanCoder::encodeText\<close> (HuffmanCoder.cpp, 230-244).\<close>

fun encodeText_loop :: "string \<Rightarrow> (char, string) unordered_map \<Rightarrow> string \<Rightarrow> error + string" where
  "encodeText_loop [] char_codes encoded_text = Inr encoded_text"
| "encodeText_loop (c # input_text) char_codes encoded_text =
     (case map_of char_codes c of
        None \<Rightarrow> Inl Out_of_range
      | Some code \<Rightarrow> encodeText_loop input_text char_codes (encoded_text @ code))"

definition encodeText :: "string \<Rightarrow> (char, string) unordered_map \<Rightarrow> error + string" where
  "encodeText input_text char_codes =
     (if length char_codes = 1 then Inr (replicate (length input_text) (CHR ''0''))
      else encodeText_loop input_text char_codes [])"

text \<open>
  \<^verbatim>\<open>HuffmanCoder::decodeText\<close> (HuffmanCoder.cpp, 337-360). The loop returns the text
  decoded so far and the cursor \<^verbatim>\<open>curr\<close> (\<open>cur\<close> below). The cursor is never null
  when the loop reads its children: the root is checked before the loop, and a null
  child ends it.
  The last test \<^verbatim>\<open>curr != root\<close> compares pointers; the cursor points into the tree
  of \<open>root\<close>, whose nodes are all different from the root below the root itself, so
  comparing what the pointers point to gives the same answer.
\<close>

definition MalformedEncoding :: error where
  "MalformedEncoding = Runtime_error ''Encoding did not match Huffman tree.''"

fun decodeText_loop ::
  "HuffmanTreeNode \<Rightarrow> HuffmanTreeNode \<Rightarrow> string \<Rightarrow> string \<Rightarrow> error + string \<times> HuffmanTreeNode"
where
  "decodeText_loop root cur [] decoded_text = Inr (decoded_text, cur)"
| "decodeText_loop root cur (b # encoded_text) decoded_text =
     (let cur1 = (if b = CHR ''0'' then get_left cur
                   else if b = CHR ''1'' then get_right cur
                   else cur)
      in if cur1 = Nullptr then Inl MalformedEncoding
         else if isLeaf cur1
         then decodeText_loop root root encoded_text (decoded_text @ [get_val cur1])
         else decodeText_loop root cur1 encoded_text decoded_text)"

definition decodeText :: "string \<Rightarrow> HuffmanTreeNode \<Rightarrow> error + string" where
  "decodeText encoded_text root =
     (if root = Nullptr then Inl (Runtime_error ''Huffman tree is empty.'')
      else case decodeText_loop root root encoded_text [] of
        Inl e \<Rightarrow> Inl e
      | Inr (decoded_text, cur) \<Rightarrow>
          if cur \<noteq> root then Inl MalformedEncoding else Inr decoded_text)"

text \<open>
  \<^verbatim>\<open>HuffmanCoder::decoder\<close> (HuffmanCoder.cpp, 90-120) between reading the input file
  and writing the output file. \<open>decoder_text\<close> is lines 98-115, the text decoded
  from the bits against a root; \<open>decoder\<close> is lines 95-115, from the two strings
  that the file reader returns to the text written. The loop of lines 103-107 is
  \<open>allZeros\<close>.
\<close>

fun allZeros :: "string \<Rightarrow> bool" where
  "allZeros [] = True"
| "allZeros (c # encoded_text) = (if c \<noteq> CHR ''0'' then False else allZeros encoded_text)"

definition decoder_text :: "string \<Rightarrow> HuffmanTreeNode \<Rightarrow> error + string" where
  "decoder_text encoded_text root =
     (if root = Nullptr then Inl Null_dereference
      else if isLeaf root then
        (if allZeros encoded_text
         then Inr (replicate (length encoded_text) (get_val root))
         else decodeText encoded_text root)
      else decodeText encoded_text root)"

definition decoder :: "string \<Rightarrow> string \<Rightarrow> error + string" where
  "decoder serialized_tree encoded_text =
     decoder_text encoded_text (deserializeHuffmanTree serialized_tree)"

section \<open>Notions of the specification\<close>

text \<open>
  Structural identity of two trees, in the spec's words: ``same shape, same symbols at
  same leaf positions''. Frequencies, and the symbol field of an internal node, are not
  compared.
\<close>

fun struct_eq :: "HuffmanTreeNode \<Rightarrow> HuffmanTreeNode \<Rightarrow> bool" where
  "struct_eq Nullptr Nullptr = True"
| "struct_eq (Node v f l r) (Node v' f' l' r') =
     (if isLeaf (Node v f l r) \<or> isLeaf (Node v' f' l' r')
      then isLeaf (Node v f l r) \<and> isLeaf (Node v' f' l' r') \<and> v = v'
      else struct_eq l l' \<and> struct_eq r r')"
| "struct_eq Nullptr (Node v' f' l' r') = False"
| "struct_eq (Node v f l r) Nullptr = False"

text \<open>
  The tree invariant, in the spec's words: a node is a leaf iff it has zero children;
  every internal node has exactly two children, and its frequency is the sum of its
  children's frequencies (the sum of the C++ type \<^verbatim>\<open>int\<close>). It holds of a tree when
  it holds at each of its nodes; the null pointer is no tree.
\<close>

fun tree_invariant :: "HuffmanTreeNode \<Rightarrow> bool" where
  "tree_invariant Nullptr = False"
| "tree_invariant (Node v f l r) =
     ((isLeaf (Node v f l r) \<longleftrightarrow> l = Nullptr \<and> r = Nullptr) \<and>
      (\<not> isLeaf (Node v f l r) \<longrightarrow>
         l \<noteq> Nullptr \<and> r \<noteq> Nullptr \<and> f = get_freq l + get_freq r \<and>
         tree_invariant l \<and> tree_invariant r))"

text \<open>
  The decoder's state machine, in the spec's words. The cursor is a position in the
  tree, written as the path \<open>p\<close> of bits that leads to it from the root, so that
  ``the cursor is back at the root'' is \<open>p = []\<close>. \<open>node_at root p\<close> is the node
  at that position, null when the path leaves the tree.
\<close>

fun node_at :: "HuffmanTreeNode \<Rightarrow> string \<Rightarrow> HuffmanTreeNode" where
  "node_at t [] = t"
| "node_at Nullptr (b # p) = Nullptr"
| "node_at (Node v f l r) (b # p) = node_at (if b = CHR ''0'' then l else r) p"

fun cursor_walk :: "HuffmanTreeNode \<Rightarrow> string \<Rightarrow> string \<Rightarrow> string \<Rightarrow> error + string" where
  "cursor_walk root p [] out = (if p = [] then Inr out else Inl MalformedEncoding)"
| "cursor_walk root p (b # bits) out =
     (if node_at root (p @ [b]) = Nullptr then Inl MalformedEncoding
      else if isLeaf (node_at root (p @ [b]))
      then cursor_walk root [] bits (out @ [get_val (node_at root (p @ [b]))])
      else cursor_walk root (p @ [b]) bits out)"

section \<open>Auxiliary notions for the proofs\<close>

text \<open>The symbols at the leaves of a tree, from left to right.\<close>

fun leaf_syms :: "HuffmanTreeNode \<Rightarrow> char list" where
  "leaf_syms Nullptr = []"
| "leaf_syms (Node v f l r) =
     (if l = Nullptr \<and> r = Nullptr then [v] else leaf_syms l @ leaf_syms r)"

text \<open>A tree whose nodes all have no child or two children.\<close>

fun full_tree :: "HuffmanTreeNode \<Rightarrow> bool" where
  "full_tree Nullptr = False"
| "full_tree (Node v f l r) =
     ((l = Nullptr \<and> r = Nullptr) \<or>
      (l \<noteq> Nullptr \<and> r \<noteq> Nullptr \<and> full_tree l \<and> full_tree r))"

text \<open>The path from the root to the leaf that holds a symbol.\<close>

fun path_to :: "HuffmanTreeNode \<Rightarrow> char \<Rightarrow> string" where
  "path_to Nullptr c = []"
| "path_to (Node v f l r) c =
     (if l = Nullptr \<and> r = Nullptr then []
      else if c \<in> set (leaf_syms l) then CHR ''0'' # path_to l c
      else CHR ''1'' # path_to r c)"

section \<open>Properties of the tree construction\<close>

text \<open>
  The loop keeps three things about the queue: every element satisfies the tree
  invariant, the frequencies of the elements add up to the same sum, and the leaf
  symbols of the elements form the same multiset. At the exit the one element left is
  the root. The loop ends from every non-empty queue, whatever the tie-breaks.
\<close>

lemma pq_top_mem: "pq_top pq x \<Longrightarrow> x \<in> set pq"
  by (simp add: pq_top.simps)

lemma tree_invariant_full: "tree_invariant t \<Longrightarrow> full_tree t"
  by (induction t) auto

lemma tree_invariant_not_null: "tree_invariant t \<Longrightarrow> t \<noteq> Nullptr"
  by auto

lemma sum_list_remove1:
  fixes f :: "'a \<Rightarrow> 'b::comm_monoid_add"
  shows "x \<in> set xs \<Longrightarrow> f x + sum_list (map f (remove1 x xs)) = sum_list (map f xs)"
  by (simp add: sum_list_map_remove1)

lemma mset_leaf_syms_Node:
  "l \<noteq> Nullptr \<Longrightarrow> mset (leaf_syms (Node v f l r)) = mset (leaf_syms l) + mset (leaf_syms r)"
  by simp

lemma buildHuffmanTree_loop_invariant:
  "buildHuffmanTree_loop pq root \<Longrightarrow> \<forall>t \<in> set pq. tree_invariant t \<Longrightarrow>
   tree_invariant root \<and>
   get_freq root = sum_list (map get_freq pq) \<and>
   mset (leaf_syms root) = sum_list (map (\<lambda>t. mset (leaf_syms t)) pq)"
proof (induction rule: buildHuffmanTree_loop.induct)
  case (exit pq root)
  from exit.hyps have "root \<in> set pq" by (simp add: pq_top_mem)
  with exit.hyps(1) have "pq = [root]"
    by (cases pq) auto
  with exit.prems show ?case by simp
next
  case (iter pq left right root)
  let ?pq1 = "remove1 left pq"
  let ?parent = "Node (CHR 0x00) (get_freq left + get_freq right) left right"
  from iter.hyps have l: "left \<in> set pq" and r: "right \<in> set ?pq1"
    by (simp_all add: pq_top_mem)
  from r have r': "right \<in> set pq" by (metis notin_set_remove1)
  from l r' iter.prems have inv: "tree_invariant left" "tree_invariant right" by auto
  then have nn: "left \<noteq> Nullptr" "right \<noteq> Nullptr" by auto
  have "\<forall>t \<in> set (?parent # remove1 right ?pq1). tree_invariant t"
    using inv nn iter.prems by (auto dest: notin_set_remove1)
  with iter.IH have root: "tree_invariant root"
    "get_freq root = sum_list (map get_freq (?parent # remove1 right ?pq1))"
    "mset (leaf_syms root) = sum_list (map (\<lambda>t. mset (leaf_syms t)) (?parent # remove1 right ?pq1))"
    by blast+
  have "sum_list (map get_freq (?parent # remove1 right ?pq1)) = sum_list (map get_freq pq)"
    using sum_list_remove1 [OF l, of get_freq] sum_list_remove1 [OF r, of get_freq]
    by (simp add: add.assoc)
  moreover have "sum_list (map (\<lambda>t. mset (leaf_syms t)) (?parent # remove1 right ?pq1))
      = sum_list (map (\<lambda>t. mset (leaf_syms t)) pq)"
    using sum_list_remove1 [OF l, of "\<lambda>t. mset (leaf_syms t)"]
      sum_list_remove1 [OF r, of "\<lambda>t. mset (leaf_syms t)"] nn
    by (simp add: add.assoc)
  ultimately show ?case using root by simp
qed


lemma pq_top_exists: "pq \<noteq> [] \<Longrightarrow> \<exists>x. pq_top pq x"
proof -
  assume ne: "pq \<noteq> []"
  let ?f = "\<lambda>t. sint (get_freq t)"
  let ?x = "arg_min_list ?f pq"
  have "?x \<in> set pq" using ne by (rule arg_min_list_in)
  moreover have "\<forall>y \<in> set pq. \<not> NodeComparator ?x y"
    using f_arg_min_list_f [OF ne, of ?f]
    by (auto simp: NodeComparator_def word_sless_alt not_less)
  ultimately show ?thesis by (auto intro: pq_top.intros)
qed

lemma buildHuffmanTree_loop_returns: "pq \<noteq> [] \<Longrightarrow> \<exists>root. buildHuffmanTree_loop pq root"
proof (induction "length pq" arbitrary: pq rule: less_induct)
  case less
  show ?case
  proof (cases "length pq > 1")
    case False
    from pq_top_exists [OF less.prems] obtain x where "pq_top pq x" ..
    with False show ?thesis using buildHuffmanTree_loop.exit [of pq x] by auto
  next
    case True
    from pq_top_exists [OF less.prems] obtain left where l: "pq_top pq left" ..
    then have lm: "left \<in> set pq" by (rule pq_top_mem)
    with True have "remove1 left pq \<noteq> []"
      by (cases pq) (auto simp: length_remove1 split: if_splits)
    from pq_top_exists [OF this] obtain right where r: "pq_top (remove1 left pq) right" ..
    then have rm: "right \<in> set (remove1 left pq)" by (rule pq_top_mem)
    let ?pq' = "Node (CHR 0x00) (get_freq left + get_freq right) left right
          # remove1 right (remove1 left pq)"
    have "length ?pq' < length pq"
      using lm rm True by (simp add: length_remove1)
    from less.hyps [OF this] obtain root where "buildHuffmanTree_loop ?pq' root" by auto
    with True l r show ?thesis using buildHuffmanTree_loop.iter [of pq left right root] by auto
  qed
qed

lemma buildHuffmanTree_returns:
  "char_frequencies \<noteq> [] \<Longrightarrow> \<exists>root. buildHuffmanTree char_frequencies root"
  unfolding buildHuffmanTree_def by (rule buildHuffmanTree_loop_returns) simp

lemma buildHuffmanTree_loop_nonempty: "buildHuffmanTree_loop pq root \<Longrightarrow> pq \<noteq> []"
  by (induction rule: buildHuffmanTree_loop.induct) (auto dest: pq_top_mem)

lemma buildHuffmanTree_nonempty: "buildHuffmanTree fs root \<Longrightarrow> fs \<noteq> []"
  unfolding buildHuffmanTree_def by (drule buildHuffmanTree_loop_nonempty) simp

lemma sum_list_leaves:
  "sum_list (map (\<lambda>t. mset (leaf_syms t)) (map (\<lambda>(c, f). Node c f Nullptr Nullptr) fs))
     = mset (map fst fs)"
  by (induction fs) auto

lemma sum_list_leaf_freqs:
  "sum_list (map get_freq (map (\<lambda>(c, f). Node c f Nullptr Nullptr) fs)) = sum_list (map snd fs)"
  by (induction fs) auto

lemma buildHuffmanTree_invariant:
  assumes "buildHuffmanTree fs root"
  shows "tree_invariant root" and "get_freq root = sum_list (map snd fs)"
    and "mset (leaf_syms root) = mset (map fst fs)"
proof -
  let ?pq = "map (\<lambda>(c, f). Node c f Nullptr Nullptr) fs"
  have "\<forall>t \<in> set ?pq. tree_invariant t" by auto
  moreover from assms have "buildHuffmanTree_loop ?pq root"
    by (simp add: buildHuffmanTree_def)
  ultimately have inv: "tree_invariant root \<and>
   get_freq root = sum_list (map get_freq ?pq) \<and>
   mset (leaf_syms root) = sum_list (map (\<lambda>t. mset (leaf_syms t)) ?pq)"
    by (rule buildHuffmanTree_loop_invariant [rotated])
  from inv show "tree_invariant root" by blast
  from inv show "get_freq root = sum_list (map snd fs)"
    by (simp only: sum_list_leaf_freqs)
  from inv show "mset (leaf_syms root) = mset (map fst fs)"
    by (simp only: sum_list_leaves)
qed

lemma leaf_syms_nonempty: "full_tree t \<Longrightarrow> leaf_syms t \<noteq> []"
  by (induction t) auto

lemma leaf_syms_single: "full_tree t \<Longrightarrow> length (leaf_syms t) \<le> 1 \<Longrightarrow> isLeaf t"
proof (cases t)
  case Nullptr
  assume "full_tree t"
  with Nullptr show ?thesis by simp
next
  case (Node v f l r)
  assume a: "full_tree t" "length (leaf_syms t) \<le> 1"
  show ?thesis
  proof (cases "l = Nullptr \<and> r = Nullptr")
    case True
    with Node show ?thesis by simp
  next
    case False
    with a Node have "full_tree l" "full_tree r" by auto
    then have "leaf_syms l \<noteq> []" "leaf_syms r \<noteq> []"
      by (simp_all add: leaf_syms_nonempty)
    then have "2 \<le> length (leaf_syms l) + length (leaf_syms r)"
      by (cases "leaf_syms l"; cases "leaf_syms r") auto
    with a False Node show ?thesis by auto
  qed
qed

lemma leaf_syms_leaf: "t \<noteq> Nullptr \<Longrightarrow> isLeaf t \<Longrightarrow> leaf_syms t = [get_val t]"
  by (cases t) auto


lemma buildHuffmanTree_single:
  assumes "buildHuffmanTree [(c, f)] root"
  shows "root = Node c f Nullptr Nullptr"
proof -
  from assms have "buildHuffmanTree_loop [Node c f Nullptr Nullptr] root"
    by (simp add: buildHuffmanTree_def)
  then show ?thesis
    by (cases rule: buildHuffmanTree_loop.cases) (auto dest: pq_top_mem)
qed

lemma buildHuffmanTree_two_children:
  assumes "buildHuffmanTree fs root" and "2 \<le> length fs"
  shows "\<not> isLeaf root" and "get_left root \<noteq> Nullptr" and "get_right root \<noteq> Nullptr"
proof -
  from assms(1) have inv: "tree_invariant root" and "mset (leaf_syms root) = mset (map fst fs)"
    by (rule buildHuffmanTree_invariant)+
  then have "length (leaf_syms root) = length fs"
    by (metis length_map size_mset)
  with assms(2) inv show "\<not> isLeaf root"
    by (cases root) auto
  with inv show "get_left root \<noteq> Nullptr" and "get_right root \<noteq> Nullptr"
    by (cases root; auto)+
qed

section \<open>Properties of the serialization\<close>

text \<open>
  On a full tree the helper, started where the serialization of the tree starts inside
  a longer string, returns a structurally identical tree and stops where the
  serialization stops. The two deserializers are compared by computation induction.
\<close>

lemma string_at_append: "string_at (pre @ c # post) (length pre) = c"
  by (simp add: string_at_def)

lemma string_at_append_Suc: "string_at (pre @ c # d # post) (Suc (length pre)) = d"
  by (simp add: string_at_def nth_append)

lemma struct_eq_Nullptr [simp]:
  "struct_eq t Nullptr \<longleftrightarrow> t = Nullptr" "struct_eq Nullptr t \<longleftrightarrow> t = Nullptr"
  by (cases t; simp)+

lemma struct_eq_refl: "struct_eq t t"
  by (induction t) auto

lemma deserialize_serialize_helper:
  "full_tree t \<Longrightarrow>
   \<exists>t'. deserializeHuffmanTreeHelper (pre @ serializeHuffmanTree t @ post) (length pre)
           = (t', length pre + length (serializeHuffmanTree t)) \<and> struct_eq t' t"
proof (induction t arbitrary: pre post)
  case Nullptr
  then show ?case by simp
next
  case (Node v f l r)
  show ?case
  proof (cases "l = Nullptr \<and> r = Nullptr")
    case True
    then show ?thesis
      by (subst deserializeHuffmanTreeHelper.simps)
        (simp add: string_at_append string_at_append_Suc)
  next
    case False
    with Node.prems have full: "full_tree l" "full_tree r" and nn: "l \<noteq> Nullptr" "r \<noteq> Nullptr"
      by auto
    let ?s = "pre @ serializeHuffmanTree (Node v f l r) @ post"
    let ?i1 = "length (pre @ ''I'')"
    let ?i2 = "length (pre @ ''I'' @ serializeHuffmanTree l)"
    have s1: "?s = (pre @ ''I'') @ serializeHuffmanTree l @ (serializeHuffmanTree r @ post)"
      and s2: "?s = (pre @ ''I'' @ serializeHuffmanTree l) @ serializeHuffmanTree r @ post"
      and s0: "?s = pre @ CHR ''I'' # (serializeHuffmanTree l @ serializeHuffmanTree r @ post)"
      using False by simp_all
    from Node.IH(1) [OF full(1), of "pre @ ''I''" "serializeHuffmanTree r @ post"]
    obtain l' where l': "deserializeHuffmanTreeHelper ?s ?i1 = (l', ?i2)" "struct_eq l' l"
      unfolding s1 [symmetric] by auto
    from Node.IH(2) [OF full(2), of "pre @ ''I'' @ serializeHuffmanTree l" post]
    obtain r' where r': "deserializeHuffmanTreeHelper ?s ?i2
        = (r', ?i2 + length (serializeHuffmanTree r))" "struct_eq r' r"
      unfolding s2 [symmetric] by auto
    have tag: "string_at ?s (length pre) = CHR ''I''"
      unfolding s0 by (rule string_at_append)
    have len: "\<not> length ?s \<le> length pre"
      unfolding s0 by simp
    have h1: "deserializeHuffmanTreeHelper ?s (length pre)
      = (Node (CHR 0x00) 0 l' r', ?i2 + length (serializeHuffmanTree r))"
      using tag len l' r' by (subst deserializeHuffmanTreeHelper.simps) simp
    have h2: "struct_eq (Node (CHR 0x00) 0 l' r') (Node v f l r)"
      using l' r' nn by auto
    have len2: "?i2 + length (serializeHuffmanTree r)
      = length pre + length (serializeHuffmanTree (Node v f l r))"
      using False by simp
    from h1 h2 show ?thesis unfolding len2 by blast
  qed
qed

lemma deserialize_serialize:
  assumes "full_tree t"
  shows "struct_eq (deserializeHuffmanTree (serializeHuffmanTree t)) t"
proof -
  from assms have "serializeHuffmanTree t \<noteq> []"
    by (cases t) auto
  moreover from deserialize_serialize_helper [OF assms, of "[]" "[]"]
  have "struct_eq (fst (deserializeHuffmanTreeHelper (serializeHuffmanTree t) 0)) t"
    by auto
  ultimately show ?thesis by (simp add: deserializeHuffmanTree_def)
qed









section \<open>Properties of decoding\<close>

text \<open>
  The cursor of \<open>decodeText\<close> is the node at the path read since the last symbol.
  A node at a non-empty path is smaller than the root, hence not the root: this is
  what relates the test \<^verbatim>\<open>curr != root\<close> to the state machine's ``back at the root''.
\<close>

lemma node_at_Nullptr [simp]: "node_at Nullptr p = Nullptr"
  by (cases p) auto

lemma node_at_append: "node_at t (p @ q) = node_at (node_at t p) q"
proof (induction p arbitrary: t)
  case Nil
  then show ?case by simp
next
  case (Cons b p)
  then show ?case by (cases t) auto
qed

lemma node_at_step:
  "cur \<noteq> Nullptr \<Longrightarrow> node_at cur [b] = (if b = CHR ''0'' then get_left cur else get_right cur)"
  by (cases cur) auto

lemma size_node_at: "p \<noteq> [] \<Longrightarrow> node_at t p \<noteq> Nullptr \<Longrightarrow> size (node_at t p) < size t"
proof (induction p arbitrary: t)
  case Nil
  then show ?case by simp
next
  case (Cons b p)
  show ?case
  proof (cases t)
    case Nullptr
    with Cons.prems show ?thesis by simp
  next
    case (Node v f l r)
    let ?c = "if b = CHR ''0'' then l else r"
    have c: "size ?c < size t" using Node by simp
    show ?thesis
    proof (cases "p = []")
      case True
      with Node c show ?thesis by simp
    next
      case False
      with Cons.IH [of ?c] Cons.prems Node have "size (node_at ?c p) < size ?c" by simp
      with c Node show ?thesis by simp
    qed
  qed
qed

lemma node_at_root: "root \<noteq> Nullptr \<Longrightarrow> node_at root p = root \<longleftrightarrow> p = []"
  using size_node_at [of p root] by (cases "p = []") auto

lemma decodeText_loop_walk:
  assumes "root \<noteq> Nullptr" and "set bits \<subseteq> {CHR ''0'', CHR ''1''}"
    and "cur = node_at root p" and "cur \<noteq> Nullptr"
  shows "(case decodeText_loop root cur bits out of
            Inl e \<Rightarrow> Inl e
          | Inr (decoded_text, c) \<Rightarrow>
              if c \<noteq> root then Inl MalformedEncoding else Inr decoded_text)
         = cursor_walk root p bits out"
  using assms(2-)
proof (induction bits arbitrary: cur p out)
  case Nil
  then show ?case using node_at_root [OF assms(1), of p] by auto
next
  case (Cons b bits)
  let ?cur1 = "if b = CHR ''0'' then get_left cur
               else if b = CHR ''1'' then get_right cur else cur"
  from Cons.prems have b: "b = CHR ''0'' \<or> b = CHR ''1''" and bits: "set bits \<subseteq> {CHR ''0'', CHR ''1''}"
    by auto
  have cur1: "?cur1 = node_at root (p @ [b])"
    using b Cons.prems(2,3) by (auto simp: node_at_append node_at_step)
  show ?case
  proof (cases "?cur1 = Nullptr")
    case True
    then show ?thesis using cur1 by (simp add: Let_def)
  next
    case nn: False
    show ?thesis
    proof (cases "isLeaf ?cur1")
      case True
      have "(case decodeText_loop root root bits (out @ [get_val ?cur1]) of
            Inl e \<Rightarrow> Inl e
          | Inr (decoded_text, c) \<Rightarrow>
              if c \<noteq> root then Inl MalformedEncoding else Inr decoded_text)
         = cursor_walk root [] bits (out @ [get_val ?cur1])"
        using assms(1) by (intro Cons.IH [OF bits]) simp_all
      then show ?thesis
        using nn True cur1 by (simp add: Let_def)
    next
      case False
      have "(case decodeText_loop root ?cur1 bits out of
            Inl e \<Rightarrow> Inl e
          | Inr (decoded_text, c) \<Rightarrow>
              if c \<noteq> root then Inl MalformedEncoding else Inr decoded_text)
         = cursor_walk root (p @ [b]) bits out"
        using nn cur1 by (intro Cons.IH [OF bits]) simp_all
      then show ?thesis
        using nn False cur1 by (simp add: Let_def)
    qed
  qed
qed

lemma decodeText_walk:
  assumes "root \<noteq> Nullptr" and "set bits \<subseteq> {CHR ''0'', CHR ''1''}"
  shows "decodeText bits root = cursor_walk root [] bits []"
  using decodeText_loop_walk [OF assms, of root "[]" "[]"] assms(1)
  by (simp add: decodeText_def)

lemma cursor_walk_error: "cursor_walk root p bits out = Inl e \<Longrightarrow> e = MalformedEncoding"
  by (induction root p bits out rule: cursor_walk.induct) (auto split: if_splits)

lemma decodeText_111:
  assumes "l' \<noteq> Nullptr"
  shows "decodeText ''111'' (Node v f l (Node v' f' l' Nullptr)) = Inl MalformedEncoding"
  using assms by (simp add: decodeText_def)

lemma struct_eq_isLeaf:
  "struct_eq t' t \<Longrightarrow> t \<noteq> Nullptr \<Longrightarrow>
   t' \<noteq> Nullptr \<and> (isLeaf t' \<longleftrightarrow> isLeaf t) \<and> (isLeaf t \<longrightarrow> get_val t' = get_val t)"
  by (cases t; cases t') (auto split: if_splits)

lemma struct_eq_node_at: "struct_eq t' t \<Longrightarrow> struct_eq (node_at t' p) (node_at t p)"
proof (induction p arbitrary: t' t)
  case Nil
  then show ?case by simp
next
  case (Cons b p)
  show ?case
  proof (cases t)
    case Nullptr
    with Cons.prems show ?thesis by simp
  next
    case (Node v f l r)
    with Cons.prems obtain v' f' l' r' where t': "t' = Node v' f' l' r'"
      by (cases t') auto
    from Cons.prems Node t' have "struct_eq l' l \<and> struct_eq r' r"
      by (auto split: if_splits)
    with Node t' show ?thesis by (auto intro: Cons.IH)
  qed
qed

lemma cursor_walk_struct_eq:
  "struct_eq root' root \<Longrightarrow> cursor_walk root' p bits out = cursor_walk root p bits out"
proof (induction bits arbitrary: p out)
  case Nil
  then show ?case by simp
next
  case (Cons b bits)
  let ?n' = "node_at root' (p @ [b])" and ?n = "node_at root (p @ [b])"
  from Cons.prems have s: "struct_eq ?n' ?n" by (rule struct_eq_node_at)
  show ?case
  proof (cases "?n = Nullptr")
    case True
    with s show ?thesis by simp
  next
    case False
    from struct_eq_isLeaf [OF s False] False Cons.IH [OF Cons.prems]
    show ?thesis by auto
  qed
qed

lemma decoder_text_struct_eq:
  assumes "struct_eq root' root" and "set bits \<subseteq> {CHR ''0'', CHR ''1''}"
  shows "decoder_text bits root' = decoder_text bits root"
proof (cases "root = Nullptr")
  case True
  with assms(1) show ?thesis by simp
next
  case False
  from struct_eq_isLeaf [OF assms(1) False]
  have nn: "root' \<noteq> Nullptr" and l: "isLeaf root' \<longleftrightarrow> isLeaf root"
    and v: "isLeaf root \<Longrightarrow> get_val root' = get_val root"
    by auto
  have "decodeText bits root' = decodeText bits root"
    using assms False nn by (simp add: decodeText_walk cursor_walk_struct_eq)
  with False nn l v show ?thesis by (auto simp: decoder_text_def)
qed

section \<open>Properties of the code table, of encoding and of the round trip\<close>

text \<open>
  In a tree with distinct leaf symbols \<open>generateCharCodes\<close> maps each leaf symbol to
  the path to its leaf. \<open>decodeText\<close> reads such a path from the root and is back
  at the root with the symbol emitted.
\<close>

lemma generateCharCodes_keys:
  "fst ` set (generateCharCodes t char_codes code) = set (leaf_syms t) \<union> fst ` set char_codes"
  by (induction t arbitrary: char_codes code) (auto simp: dom_update)

lemma generateCharCodes_distinct:
  "distinct (map fst char_codes) \<Longrightarrow> distinct (map fst (generateCharCodes t char_codes code))"
  by (induction t arbitrary: char_codes code) (auto simp: distinct_update)

lemma generateCharCodes_map_of:
  "distinct (leaf_syms t) \<Longrightarrow>
   map_of (generateCharCodes t char_codes code) c =
     (if c \<in> set (leaf_syms t) then Some (code @ path_to t c) else map_of char_codes c)"
proof (induction t arbitrary: char_codes code)
  case Nullptr
  then show ?case by simp
next
  case (Node v f l r)
  show ?case
  proof (cases "l = Nullptr \<and> r = Nullptr")
    case True
    then show ?thesis by (auto simp: update_conv')
  next
    case False
    with Node.prems have d: "distinct (leaf_syms l)" "distinct (leaf_syms r)"
      "set (leaf_syms l) \<inter> set (leaf_syms r) = {}"
      by auto
    show ?thesis
      using False d(3) by (auto simp: Node.IH(1) [OF d(1)] Node.IH(2) [OF d(2)])
  qed
qed

lemma generateCharCodes_length:
  assumes "distinct (leaf_syms t)"
  shows "length (generateCharCodes t [] code) = length (leaf_syms t)"
proof -
  let ?cc = "generateCharCodes t [] code"
  have "distinct (map fst ?cc)" by (rule generateCharCodes_distinct) simp
  then have "length ?cc = card (set (map fst ?cc))"
    by (metis distinct_card length_map)
  also have "set (map fst ?cc) = set (leaf_syms t)"
    using generateCharCodes_keys [of t "[]" code] by simp
  also have "card (set (leaf_syms t)) = length (leaf_syms t)"
    using assms by (rule distinct_card)
  finally show ?thesis .
qed

lemma encodeText_loop_total:
  "\<forall>c \<in> set input_text. map_of char_codes c \<noteq> None \<Longrightarrow>
   encodeText_loop input_text char_codes encoded_text =
     Inr (encoded_text @ concat (map (\<lambda>c. the (map_of char_codes c)) input_text))"
  by (induction input_text arbitrary: encoded_text) auto

lemma encodeText_loop_error:
  "encodeText_loop input_text char_codes encoded_text = Inl e \<longleftrightarrow>
     e = Out_of_range \<and> (\<exists>c \<in> set input_text. map_of char_codes c = None)"
  by (induction input_text arbitrary: encoded_text) (auto split: option.splits)

lemma path_to_leaf:
  "c \<in> set (leaf_syms t) \<Longrightarrow>
   node_at t (path_to t c) \<noteq> Nullptr \<and> isLeaf (node_at t (path_to t c)) \<and>
   get_val (node_at t (path_to t c)) = c \<and> set (path_to t c) \<subseteq> {CHR ''0'', CHR ''1''}"
  by (induction t) (auto split: if_splits)

lemma path_to_prefix_free:
  "c1 \<in> set (leaf_syms t) \<Longrightarrow> c2 \<in> set (leaf_syms t) \<Longrightarrow> c1 \<noteq> c2 \<Longrightarrow>
   \<not> prefix (path_to t c1) (path_to t c2)"
  by (induction t) (auto split: if_splits)

lemma path_to_nonempty: "t \<noteq> Nullptr \<Longrightarrow> \<not> isLeaf t \<Longrightarrow> path_to t c \<noteq> []"
  by (cases t) auto

lemma decodeText_loop_path:
  "full_tree cur \<Longrightarrow> \<not> isLeaf cur \<Longrightarrow> c \<in> set (leaf_syms cur) \<Longrightarrow>
   decodeText_loop root cur (path_to cur c @ rest) out = decodeText_loop root root rest (out @ [c])"
proof (induction cur)
  case Nullptr
  then show ?case by simp
next
  case (Node v f l r)
  from Node.prems have nn: "l \<noteq> Nullptr" "r \<noteq> Nullptr" and full: "full_tree l" "full_tree r"
    by auto
  show ?case
  proof (cases "c \<in> set (leaf_syms l)")
    case True
    show ?thesis
    proof (cases "isLeaf l")
      case True
      with \<open>c \<in> set (leaf_syms l)\<close> nn show ?thesis
        by (cases l) (auto simp: Let_def)
    next
      case False
      with Node.IH(1) [OF full(1)] \<open>c \<in> set (leaf_syms l)\<close> nn show ?thesis
        by (simp add: Let_def)
    qed
  next
    case False
    with Node.prems nn have cr: "c \<in> set (leaf_syms r)" by auto
    show ?thesis
    proof (cases "isLeaf r")
      case True
      with cr False nn show ?thesis
        by (cases r) (auto simp: Let_def)
    next
      case nl: False
      with Node.IH(2) [OF full(2)] cr False nn show ?thesis
        by (simp add: Let_def)
    qed
  qed
qed

lemma decodeText_loop_paths:
  "full_tree root \<Longrightarrow> \<not> isLeaf root \<Longrightarrow> set input_text \<subseteq> set (leaf_syms root) \<Longrightarrow>
   decodeText_loop root root (concat (map (path_to root) input_text) @ rest) out
     = decodeText_loop root root rest (out @ input_text)"
  by (induction input_text arbitrary: out) (auto simp: decodeText_loop_path)

lemma decodeText_paths:
  assumes "full_tree root" and "\<not> isLeaf root" and "set input_text \<subseteq> set (leaf_syms root)"
  shows "decodeText (concat (map (path_to root) input_text)) root = Inr input_text"
  using decodeText_loop_paths [OF assms, of "[]" "[]"] assms(1)
  by (auto simp: decodeText_def)

lemma increment_keys: "fst ` set (increment m c) = insert c (fst ` set m)"
  by (simp add: increment_def dom_update)

lemma increment_distinct: "distinct (map fst m) \<Longrightarrow> distinct (map fst (increment m c))"
  by (simp add: increment_def distinct_update)

lemma foldl_increment:
  "distinct (map fst m) \<Longrightarrow>
   distinct (map fst (foldl increment m contents)) \<and>
   fst ` set (foldl increment m contents) = fst ` set m \<union> set contents"
  by (induction contents arbitrary: m) (auto simp: increment_keys increment_distinct)

lemma countCharFrequencies_keys:
  "distinct (map fst (countCharFrequencies contents))"
  "fst ` set (countCharFrequencies contents) = set contents"
  using foldl_increment [of "[]" contents] by (simp_all add: countCharFrequencies_def)

lemma countCharFrequencies_nonempty: "contents \<noteq> [] \<Longrightarrow> countCharFrequencies contents \<noteq> []"
  using countCharFrequencies_keys(2) [of contents] by auto

lemma allZeros_iff: "allZeros encoded_text \<longleftrightarrow> (\<forall>c \<in> set encoded_text. c = CHR ''0'')"
  by (induction encoded_text) auto

lemma buildHuffmanTree_syms:
  assumes "buildHuffmanTree fs root" and "distinct (map fst fs)"
  shows "distinct (leaf_syms root)" and "set (leaf_syms root) = fst ` set fs"
    and "length (leaf_syms root) = length fs"
proof -
  from assms(1) have m: "mset (leaf_syms root) = mset (map fst fs)"
    by (rule buildHuffmanTree_invariant)
  from m assms(2) show "distinct (leaf_syms root)"
    by (metis mset_eq_imp_distinct_iff)
  from m show "set (leaf_syms root) = fst ` set fs"
    by (metis mset_eq_setD set_map)
  from m show "length (leaf_syms root) = length fs"
    by (metis length_map size_mset)
qed

lemma decodeText_loop_leaf_root:
  "root \<noteq> Nullptr \<Longrightarrow> isLeaf root \<Longrightarrow>
   decodeText_loop root root bits out =
     (if \<exists>c \<in> set bits. c = CHR ''0'' \<or> c = CHR ''1'' then Inl MalformedEncoding
      else Inr (out @ replicate (length bits) (get_val root), root))"
proof (induction bits arbitrary: out)
  case Nil
  then show ?case by simp
next
  case (Cons b bits)
  then show ?case
    by (cases root) (auto simp: Let_def replicate_app_Cons_same)
qed

lemma decoder_text_leaf_root:
  assumes "root \<noteq> Nullptr" and "isLeaf root"
  shows "decoder_text bits root =
     (if \<forall>c \<in> set bits. c = CHR ''0'' then Inr (replicate (length bits) (get_val root))
      else if \<exists>c \<in> set bits. c = CHR ''0'' \<or> c = CHR ''1'' then Inl MalformedEncoding
      else Inr (replicate (length bits) (get_val root)))"
  using assms
  by (simp add: decoder_text_def decodeText_def allZeros_iff decodeText_loop_leaf_root)

lemma replicate_same: "set xs \<subseteq> {x} \<Longrightarrow> replicate (length xs) x = xs"
  by (induction xs) auto

lemma round_trip:
  assumes b: "buildHuffmanTree fs root" and d: "distinct (map fst fs)"
    and sub: "set input_text \<subseteq> fst ` set fs"
  shows "\<exists>bits. encodeText input_text (generateCharCodes root [] []) = Inr bits \<and>
      decoder_text bits root = Inr input_text \<and>
      decoder (serializeHuffmanTree root) bits = Inr input_text \<and>
      (\<not> isLeaf root \<longrightarrow> decodeText bits root = Inr input_text)"
proof -
  let ?cc = "generateCharCodes root [] []"
  from b have inv: "tree_invariant root" by (rule buildHuffmanTree_invariant)
  then have full: "full_tree root" and nn: "root \<noteq> Nullptr"
    by (auto simp: tree_invariant_full)
  from b d have dl: "distinct (leaf_syms root)" and sl: "set (leaf_syms root) = fst ` set fs"
    by (rule buildHuffmanTree_syms)+
  have through: "decoder (serializeHuffmanTree root) bits = decoder_text bits root"
    if "set bits \<subseteq> {CHR ''0'', CHR ''1''}" for bits
    unfolding decoder_def
    using deserialize_serialize [OF full] that by (rule decoder_text_struct_eq)
  show ?thesis
  proof (cases "isLeaf root")
    case True
    let ?bits = "replicate (length input_text) (CHR ''0'')"
    from nn True have ls: "leaf_syms root = [get_val root]" by (rule leaf_syms_leaf)
    with dl have "length ?cc = 1" by (simp add: generateCharCodes_length)
    then have e: "encodeText input_text ?cc = Inr ?bits"
      by (simp add: encodeText_def)
    from sub sl ls have "set input_text \<subseteq> {get_val root}" by simp
    then have "replicate (length input_text) (get_val root) = input_text"
      by (rule replicate_same)
    then have dec: "decoder_text ?bits root = Inr input_text"
      using nn True by (simp add: decoder_text_leaf_root)
    have "set ?bits \<subseteq> {CHR ''0'', CHR ''1''}" by auto
    with through [of ?bits] dec
    have "decoder (serializeHuffmanTree root) ?bits = Inr input_text" by simp
    with e dec True show ?thesis by simp
  next
    case False
    let ?bits = "concat (map (path_to root) input_text)"
    from False full have "\<not> length (leaf_syms root) \<le> 1"
      using leaf_syms_single by blast
    with dl have "length ?cc \<noteq> 1" by (simp add: generateCharCodes_length)
    moreover have m: "\<And>c. c \<in> set input_text \<Longrightarrow> map_of ?cc c = Some (path_to root c)"
      using sub sl by (auto simp: generateCharCodes_map_of [OF dl])
    then have "\<forall>c \<in> set input_text. map_of ?cc c \<noteq> None" by simp
    ultimately have "encodeText input_text ?cc
        = Inr (concat (map (\<lambda>c. the (map_of ?cc c)) input_text))"
      by (simp add: encodeText_def encodeText_loop_total)
    also have "map (\<lambda>c. the (map_of ?cc c)) input_text = map (path_to root) input_text"
      using m by simp
    finally have e: "encodeText input_text ?cc = Inr ?bits" .
    have dt: "decodeText ?bits root = Inr input_text"
      using full False sub sl by (intro decodeText_paths) simp_all
    with False nn have dec: "decoder_text ?bits root = Inr input_text"
      by (simp add: decoder_text_def)
    have "set ?bits \<subseteq> {CHR ''0'', CHR ''1''}"
      using sub sl path_to_leaf [of _ root] by auto
    with through [of ?bits] dec
    have "decoder (serializeHuffmanTree root) ?bits = Inr input_text" by simp
    with e dec dt show ?thesis by simp
  qed
qed

lemma countCharFrequencies_length: "length (countCharFrequencies contents) = card (set contents)"
  by (metis countCharFrequencies_keys distinct_card length_map set_map)

section \<open>Worked examples\<close>

text \<open>Derivations of \<open>buildHuffmanTree\<close> on concrete inputs, with the ties chosen.\<close>

lemma example_build:
  "buildHuffmanTree [(CHR ''a'', 3), (CHR ''b'', 2), (CHR ''c'', 1)]
     (Node (CHR 0x00) 6
        (Node (CHR 0x00) 3 (Node (CHR ''c'') 1 Nullptr Nullptr) (Node (CHR ''b'') 2 Nullptr Nullptr))
        (Node (CHR ''a'') 3 Nullptr Nullptr))"
  unfolding buildHuffmanTree_def
  apply (rule buildHuffmanTree_loop.iter [where left = "Node (CHR ''c'') 1 Nullptr Nullptr"
        and right = "Node (CHR ''b'') 2 Nullptr Nullptr"])
     apply (simp_all add: pq_top.simps NodeComparator_def word_sless_alt)
  apply (rule buildHuffmanTree_loop.iter [where left = "Node (CHR 0x00) 3 (Node (CHR ''c'') 1 Nullptr Nullptr) (Node (CHR ''b'') 2 Nullptr Nullptr)"
        and right = "Node (CHR ''a'') 3 Nullptr Nullptr"])
     apply (simp_all add: pq_top.simps NodeComparator_def word_sless_alt)
  apply (rule buildHuffmanTree_loop.exit)
   apply (simp_all add: pq_top.simps NodeComparator_def word_sless_alt)
  done

lemma example_build_abca:
  "buildHuffmanTree (countCharFrequencies ''abca'')
     (Node (CHR 0x00) 4
        (Node (CHR 0x00) 2 (Node (CHR ''b'') 1 Nullptr Nullptr) (Node (CHR ''c'') 1 Nullptr Nullptr))
        (Node (CHR ''a'') 2 Nullptr Nullptr))"
proof -
  have f: "countCharFrequencies ''abca'' = [(CHR ''a'', 2), (CHR ''b'', 1), (CHR ''c'', 1)]"
    by (simp add: countCharFrequencies_def increment_def)
  show ?thesis
    unfolding f buildHuffmanTree_def
    apply (rule buildHuffmanTree_loop.iter [where left = "Node (CHR ''b'') 1 Nullptr Nullptr"
          and right = "Node (CHR ''c'') 1 Nullptr Nullptr"])
       apply (simp_all add: pq_top.simps NodeComparator_def word_sless_alt)
    apply (rule buildHuffmanTree_loop.iter [where left = "Node (CHR 0x00) 2 (Node (CHR ''b'') 1 Nullptr Nullptr) (Node (CHR ''c'') 1 Nullptr Nullptr)"
          and right = "Node (CHR ''a'') 2 Nullptr Nullptr"])
       apply (simp_all add: pq_top.simps NodeComparator_def word_sless_alt)
    apply (rule buildHuffmanTree_loop.exit)
     apply (simp_all add: pq_top.simps NodeComparator_def word_sless_alt)
    done
qed

lemma example_build_aaaa:
  "buildHuffmanTree (countCharFrequencies ''aaaa'') (Node (CHR ''a'') 4 Nullptr Nullptr)"
proof -
  have f: "countCharFrequencies ''aaaa'' = [(CHR ''a'', 4)]"
    by (simp add: countCharFrequencies_def increment_def)
  show ?thesis
    unfolding f buildHuffmanTree_def
    by (rule buildHuffmanTree_loop.exit) (simp_all add: pq_top.simps NodeComparator_def)
qed

lemma example_no_build: "\<not> (\<exists>root. buildHuffmanTree (countCharFrequencies []) root)"
  by (auto simp: countCharFrequencies_def dest: buildHuffmanTree_nonempty)

section \<open>The claims\<close>

text \<open>
  C8. Every tree that \<open>buildHuffmanTree\<close> returns from a non-empty frequency table
  satisfies the tree invariant: each node has no child (a leaf) or exactly two children,
  and an internal node's frequency is the sum of its children's frequencies. From a
  table with one symbol the tree is that symbol's leaf alone. From the table
  \<open>{a:3, b:2, c:1}\<close>, in whatever order the map is iterated, the root has frequency
  6 and two children. The builder returns a tree from every non-empty table.
\<close>

theorem buildHuffmanTree_tree_invariant:
  assumes "char_frequencies \<noteq> []"
  shows "(\<exists>root. buildHuffmanTree char_frequencies root) \<and>
    (\<forall>root. buildHuffmanTree char_frequencies root \<longrightarrow>
       tree_invariant root \<and>
       (\<forall>c f. char_frequencies = [(c, f)] \<longrightarrow> root = Node c f Nullptr Nullptr) \<and>
       (mset char_frequencies = {#(CHR ''a'', 3), (CHR ''b'', 2), (CHR ''c'', 1)#} \<longrightarrow>
          get_freq root = 6 \<and> get_left root \<noteq> Nullptr \<and> get_right root \<noteq> Nullptr))"
proof (intro conjI allI impI)
  show "\<exists>root. buildHuffmanTree char_frequencies root"
    using assms by (rule buildHuffmanTree_returns)
next
  fix root assume "buildHuffmanTree char_frequencies root"
  then show "tree_invariant root" by (rule buildHuffmanTree_invariant)
next
  fix root c f
  assume "buildHuffmanTree char_frequencies root" "char_frequencies = [(c, f)]"
  then show "root = Node c f Nullptr Nullptr" by (simp add: buildHuffmanTree_single)
next
  fix root
  assume b: "buildHuffmanTree char_frequencies root"
    and m: "mset char_frequencies = {#(CHR ''a'', 3), (CHR ''b'', 2), (CHR ''c'', 1)#}"
  have "sum_list (map snd char_frequencies) = sum_mset (image_mset snd (mset char_frequencies))"
    by (metis mset_map sum_mset_sum_list)
  also have "\<dots> = 6" by (simp add: m)
  finally show "get_freq root = 6"
    using buildHuffmanTree_invariant(2) [OF b] by simp
  from m have "length char_frequencies = 3"
    by (metis size_mset size_add_mset size_empty numeral_3_eq_3)
  then have "2 \<le> length char_frequencies" by simp
  with b show "get_left root \<noteq> Nullptr" "get_right root \<noteq> Nullptr"
    by (rule buildHuffmanTree_two_children)+
qed

theorem buildHuffmanTree_tree_invariant_witness:
  "[(CHR ''a'', 3), (CHR ''b'', 2), (CHR ''c'', 1 :: cint)] \<noteq> [] \<and>
   buildHuffmanTree [(CHR ''a'', 3), (CHR ''b'', 2), (CHR ''c'', 1)]
     (Node (CHR 0x00) 6
        (Node (CHR 0x00) 3 (Node (CHR ''c'') 1 Nullptr Nullptr) (Node (CHR ''b'') 2 Nullptr Nullptr))
        (Node (CHR ''a'') 3 Nullptr Nullptr)) \<and>
   tree_invariant
     (Node (CHR 0x00) 6
        (Node (CHR 0x00) 3 (Node (CHR ''c'') 1 Nullptr Nullptr) (Node (CHR ''b'') 2 Nullptr Nullptr))
        (Node (CHR ''a'') 3 Nullptr Nullptr))"
  using buildHuffmanTree_tree_invariant [of "[(CHR ''a'', 3), (CHR ''b'', 2), (CHR ''c'', 1)]"]
    example_build
  by blast

text \<open>
  C2. For every tree \<open>t\<close> that \<open>buildHuffmanTree\<close> returns (from a frequency table,
  which is then non-empty), deserializing the serialization of \<open>t\<close> gives a tree
  structurally identical to \<open>t\<close>: the same shape and the same symbol at each leaf.
  The serialization follows the preorder grammar: the null tree gives the empty string,
  a leaf gives \<open>L\<close> and its symbol byte, an internal node gives \<open>I\<close>, then the
  serialization of its left child, then that of its right child.
\<close>

theorem serializeHuffmanTree_round_trip:
  assumes "buildHuffmanTree char_frequencies t"
  shows "struct_eq (deserializeHuffmanTree (serializeHuffmanTree t)) t \<and>
    serializeHuffmanTree Nullptr = [] \<and>
    (\<forall>n. n \<noteq> Nullptr \<and> isLeaf n \<longrightarrow> serializeHuffmanTree n = [CHR ''L'', get_val n]) \<and>
    (\<forall>n. n \<noteq> Nullptr \<and> \<not> isLeaf n \<longrightarrow>
       serializeHuffmanTree n =
         CHR ''I'' # serializeHuffmanTree (get_left n) @ serializeHuffmanTree (get_right n))"
proof (intro conjI allI impI)
  from assms have "tree_invariant t" by (rule buildHuffmanTree_invariant)
  then have "full_tree t" by (rule tree_invariant_full)
  then show "struct_eq (deserializeHuffmanTree (serializeHuffmanTree t)) t"
    by (rule deserialize_serialize)
next
  show "serializeHuffmanTree Nullptr = []" by simp
next
  fix n assume "n \<noteq> Nullptr \<and> isLeaf n"
  then show "serializeHuffmanTree n = [CHR ''L'', get_val n]"
    by (cases n) auto
next
  fix n assume "n \<noteq> Nullptr \<and> \<not> isLeaf n"
  then show "serializeHuffmanTree n =
      CHR ''I'' # serializeHuffmanTree (get_left n) @ serializeHuffmanTree (get_right n)"
    by (cases n) auto
qed

theorem serializeHuffmanTree_round_trip_witness:
  "buildHuffmanTree [(CHR ''a'', 3), (CHR ''b'', 2), (CHR ''c'', 1)]
     (Node (CHR 0x00) 6
        (Node (CHR 0x00) 3 (Node (CHR ''c'') 1 Nullptr Nullptr) (Node (CHR ''b'') 2 Nullptr Nullptr))
        (Node (CHR ''a'') 3 Nullptr Nullptr)) \<and>
   serializeHuffmanTree
     (Node (CHR 0x00) 6
        (Node (CHR 0x00) 3 (Node (CHR ''c'') 1 Nullptr Nullptr) (Node (CHR ''b'') 2 Nullptr Nullptr))
        (Node (CHR ''a'') 3 Nullptr Nullptr)) = ''IILcLbLa'' \<and>
   struct_eq (deserializeHuffmanTree ''IILcLbLa'')
     (Node (CHR 0x00) 6
        (Node (CHR 0x00) 3 (Node (CHR ''c'') 1 Nullptr Nullptr) (Node (CHR ''b'') 2 Nullptr Nullptr))
        (Node (CHR ''a'') 3 Nullptr Nullptr))"
  using serializeHuffmanTree_round_trip [OF example_build] example_build
  by simp





text \<open>
  C1, as the code has it. For every non-empty input, \<open>buildHuffmanTree\<close> returns a
  tree from the input's frequency table, and for every tree it may return, encoding
  the input with the codes of that tree succeeds and the decoding that \<open>decoder\<close>
  performs (\<open>decodeText\<close>, preceded by the test for a root that is a leaf) gives the
  input back, against that tree and against the tree deserialized from its
  serialization. \<open>decodeText\<close> itself gives the input back when the input has at
  least two distinct symbols.
\<close>

theorem encode_decode_round_trip:
  assumes "input_text \<noteq> []"
  shows "(\<exists>root. buildHuffmanTree (countCharFrequencies input_text) root) \<and>
    (\<forall>root. buildHuffmanTree (countCharFrequencies input_text) root \<longrightarrow>
       (\<exists>bits. encodeText input_text (generateCharCodes root [] []) = Inr bits \<and>
          decoder_text bits root = Inr input_text \<and>
          decoder (serializeHuffmanTree root) bits = Inr input_text \<and>
          (2 \<le> card (set input_text) \<longrightarrow> decodeText bits root = Inr input_text)))"
proof (intro conjI allI impI)
  from assms have "countCharFrequencies input_text \<noteq> []"
    by (rule countCharFrequencies_nonempty)
  then show "\<exists>root. buildHuffmanTree (countCharFrequencies input_text) root"
    by (rule buildHuffmanTree_returns)
next
  fix root
  assume b: "buildHuffmanTree (countCharFrequencies input_text) root"
  have "2 \<le> card (set input_text) \<Longrightarrow> \<not> isLeaf root"
    using buildHuffmanTree_two_children(1) [OF b] by (simp add: countCharFrequencies_length)
  with round_trip [OF b countCharFrequencies_keys(1), of input_text]
  show "\<exists>bits. encodeText input_text (generateCharCodes root [] []) = Inr bits \<and>
          decoder_text bits root = Inr input_text \<and>
          decoder (serializeHuffmanTree root) bits = Inr input_text \<and>
          (2 \<le> card (set input_text) \<longrightarrow> decodeText bits root = Inr input_text)"
    by (auto simp: countCharFrequencies_keys(2))
qed

theorem encode_decode_round_trip_witness:
  "''abca'' \<noteq> [] \<and>
   buildHuffmanTree (countCharFrequencies ''abca'')
     (Node (CHR 0x00) 4
        (Node (CHR 0x00) 2 (Node (CHR ''b'') 1 Nullptr Nullptr) (Node (CHR ''c'') 1 Nullptr Nullptr))
        (Node (CHR ''a'') 2 Nullptr Nullptr)) \<and>
   encodeText ''abca'' (generateCharCodes
     (Node (CHR 0x00) 4
        (Node (CHR 0x00) 2 (Node (CHR ''b'') 1 Nullptr Nullptr) (Node (CHR ''c'') 1 Nullptr Nullptr))
        (Node (CHR ''a'') 2 Nullptr Nullptr)) [] []) = Inr ''100011'' \<and>
   decoder_text ''100011''
     (Node (CHR 0x00) 4
        (Node (CHR 0x00) 2 (Node (CHR ''b'') 1 Nullptr Nullptr) (Node (CHR ''c'') 1 Nullptr Nullptr))
        (Node (CHR ''a'') 2 Nullptr Nullptr)) = Inr ''abca'' \<and>
   2 \<le> card (set ''abca'') \<and>
   decodeText ''100011''
     (Node (CHR 0x00) 4
        (Node (CHR 0x00) 2 (Node (CHR ''b'') 1 Nullptr Nullptr) (Node (CHR ''c'') 1 Nullptr Nullptr))
        (Node (CHR ''a'') 2 Nullptr Nullptr)) = Inr ''abca'' \<and>
   serializeHuffmanTree
     (Node (CHR 0x00) 4
        (Node (CHR 0x00) 2 (Node (CHR ''b'') 1 Nullptr Nullptr) (Node (CHR ''c'') 1 Nullptr Nullptr))
        (Node (CHR ''a'') 2 Nullptr Nullptr)) = ''IILbLcLa'' \<and>
   decoder ''IILbLcLa'' ''100011'' = Inr ''abca''"
  using encode_decode_round_trip [of "''abca''"] example_build_abca
  by (simp add: encodeText_def decoder_def decoder_text_def decodeText_def card_insert_if
      deserializeHuffmanTree_def deserializeHuffmanTreeHelper.simps string_at_def)

text \<open>
  C1, as the claim states it, fails in two places. For the empty input no tree is
  built: the frequency table is empty and \<^verbatim>\<open>pq.top()\<close> is called on an empty queue
  (\<open>encoder\<close> returns before that, at its test for an empty input). For the input
  \<open>aaaa\<close> the tree is one leaf, the encoding is \<open>0000\<close>, and \<open>decodeText\<close>,
  moving left from the leaf, throws.
\<close>

theorem encode_decode_round_trip_counterexample:
  "\<not> (\<exists>root. buildHuffmanTree (countCharFrequencies []) root) \<and>
   buildHuffmanTree (countCharFrequencies ''aaaa'') (Node (CHR ''a'') 4 Nullptr Nullptr) \<and>
   encodeText ''aaaa'' (generateCharCodes (Node (CHR ''a'') 4 Nullptr Nullptr) [] [])
     = Inr ''0000'' \<and>
   decodeText ''0000'' (Node (CHR ''a'') 4 Nullptr Nullptr) = Inl MalformedEncoding"
  using example_no_build example_build_aaaa
  by (simp add: encodeText_def decodeText_def)

text \<open>
  C4. For a string of \<open>0\<close> and \<open>1\<close> characters and a root that is not null (in
  particular an internal root), \<open>decodeText\<close> returns what the state machine of the
  spec returns: the cursor starts at the root, goes left on \<open>0\<close> and right on
  \<open>1\<close>, the decoding fails with MalformedEncoding when the cursor becomes null and
  when the bits end with the cursor away from the root, and a leaf emits its symbol and
  sends the cursor back to the root. A failure is the error alone, with no text. No
  other error occurs. Decoding \<open>111\<close> against a tree whose right child is an
  internal node without a right child fails.
\<close>

theorem decodeText_state_machine:
  assumes "root \<noteq> Nullptr" and "set bits \<subseteq> {CHR ''0'', CHR ''1''}"
  shows "decodeText bits root = cursor_walk root [] bits [] \<and>
    (\<forall>e. decodeText bits root = Inl e \<longrightarrow> e = MalformedEncoding) \<and>
    (l' \<noteq> Nullptr \<longrightarrow>
       decodeText ''111'' (Node v f l (Node v' f' l' Nullptr)) = Inl MalformedEncoding)"
proof (intro conjI allI impI)
  show w: "decodeText bits root = cursor_walk root [] bits []"
    using assms by (rule decodeText_walk)
  fix e assume "decodeText bits root = Inl e"
  with w show "e = MalformedEncoding" by (simp add: cursor_walk_error)
next
  assume "l' \<noteq> Nullptr"
  then show "decodeText ''111'' (Node v f l (Node v' f' l' Nullptr)) = Inl MalformedEncoding"
    by (rule decodeText_111)
qed

theorem decodeText_state_machine_witness:
  "(Node (CHR 0x00) 4
        (Node (CHR 0x00) 2 (Node (CHR ''b'') 1 Nullptr Nullptr) (Node (CHR ''c'') 1 Nullptr Nullptr))
        (Node (CHR ''a'') 2 Nullptr Nullptr)) \<noteq> Nullptr \<and>
   set ''100011'' \<subseteq> {CHR ''0'', CHR ''1''} \<and>
   decodeText ''100011''
     (Node (CHR 0x00) 4
        (Node (CHR 0x00) 2 (Node (CHR ''b'') 1 Nullptr Nullptr) (Node (CHR ''c'') 1 Nullptr Nullptr))
        (Node (CHR ''a'') 2 Nullptr Nullptr)) = Inr ''abca'' \<and>
   cursor_walk
     (Node (CHR 0x00) 4
        (Node (CHR 0x00) 2 (Node (CHR ''b'') 1 Nullptr Nullptr) (Node (CHR ''c'') 1 Nullptr Nullptr))
        (Node (CHR ''a'') 2 Nullptr Nullptr)) [] ''100011'' [] = Inr ''abca'' \<and>
   decodeText ''1000''
     (Node (CHR 0x00) 4
        (Node (CHR 0x00) 2 (Node (CHR ''b'') 1 Nullptr Nullptr) (Node (CHR ''c'') 1 Nullptr Nullptr))
        (Node (CHR ''a'') 2 Nullptr Nullptr)) = Inl MalformedEncoding \<and>
   Node (CHR ''b'') 1 Nullptr Nullptr \<noteq> Nullptr \<and>
   decodeText ''111''
     (Node (CHR 0x00) 0 (Node (CHR ''a'') 0 Nullptr Nullptr)
        (Node (CHR 0x00) 0 (Node (CHR ''b'') 1 Nullptr Nullptr) Nullptr))
     = Inl MalformedEncoding"
  using decodeText_state_machine [of
      "(Node (CHR 0x00) 4
        (Node (CHR 0x00) 2 (Node (CHR ''b'') 1 Nullptr Nullptr) (Node (CHR ''c'') 1 Nullptr Nullptr))
        (Node (CHR ''a'') 2 Nullptr Nullptr))"
      "''100011''" "Node (CHR ''b'') 1 Nullptr Nullptr" "CHR 0x00" 0
      "Node (CHR ''a'') 0 Nullptr Nullptr" "CHR 0x00" 0]
    decodeText_state_machine [of
      "(Node (CHR 0x00) 4
        (Node (CHR 0x00) 2 (Node (CHR ''b'') 1 Nullptr Nullptr) (Node (CHR ''c'') 1 Nullptr Nullptr))
        (Node (CHR ''a'') 2 Nullptr Nullptr))"
      "''1000''"]
  by (simp add: decodeText_def)

text \<open>
  C5. For every frequency table with at least two symbols, \<open>buildHuffmanTree\<close>
  returns a tree, and in the code table that \<open>generateCharCodes\<close> derives from any
  tree it may return: the symbols with a code are the symbols of the frequency table;
  every code is non-empty, is made of \<open>0\<close> and \<open>1\<close>, and is the path from the root
  to the leaf of its symbol, \<open>0\<close> for left and \<open>1\<close> for right; and the code of one
  symbol is never a prefix of the code of another.
\<close>

theorem generateCharCodes_prefix_free:
  assumes "distinct (map fst char_frequencies)" and "2 \<le> length char_frequencies"
  shows "(\<exists>root. buildHuffmanTree char_frequencies root) \<and>
    (\<forall>root. buildHuffmanTree char_frequencies root \<longrightarrow>
       fst ` set (generateCharCodes root [] []) = fst ` set char_frequencies \<and>
       (\<forall>c \<in> fst ` set char_frequencies.
          \<exists>code. map_of (generateCharCodes root [] []) c = Some code \<and> code \<noteq> []) \<and>
       (\<forall>c code. map_of (generateCharCodes root [] []) c = Some code \<longrightarrow>
          code \<noteq> [] \<and> set code \<subseteq> {CHR ''0'', CHR ''1''} \<and>
          node_at root code \<noteq> Nullptr \<and> isLeaf (node_at root code) \<and>
          get_val (node_at root code) = c) \<and>
       (\<forall>c1 c2 code1 code2.
          c1 \<noteq> c2 \<and> map_of (generateCharCodes root [] []) c1 = Some code1 \<and>
          map_of (generateCharCodes root [] []) c2 = Some code2 \<longrightarrow>
          \<not> prefix code1 code2))"
proof -
  from assms(2) have "char_frequencies \<noteq> []" by auto
  then have ex: "\<exists>root. buildHuffmanTree char_frequencies root"
    by (rule buildHuffmanTree_returns)
  have main: "fst ` set (generateCharCodes root [] []) = fst ` set char_frequencies \<and>
       (\<forall>c \<in> fst ` set char_frequencies.
          \<exists>code. map_of (generateCharCodes root [] []) c = Some code \<and> code \<noteq> []) \<and>
       (\<forall>c code. map_of (generateCharCodes root [] []) c = Some code \<longrightarrow>
          code \<noteq> [] \<and> set code \<subseteq> {CHR ''0'', CHR ''1''} \<and>
          node_at root code \<noteq> Nullptr \<and> isLeaf (node_at root code) \<and>
          get_val (node_at root code) = c) \<and>
       (\<forall>c1 c2 code1 code2.
          c1 \<noteq> c2 \<and> map_of (generateCharCodes root [] []) c1 = Some code1 \<and>
          map_of (generateCharCodes root [] []) c2 = Some code2 \<longrightarrow>
          \<not> prefix code1 code2)"
    if b: "buildHuffmanTree char_frequencies root" for root
  proof -
    let ?cc = "generateCharCodes root [] []"
    from b assms(1) have dl: "distinct (leaf_syms root)"
      and sl: "set (leaf_syms root) = fst ` set char_frequencies"
      by (rule buildHuffmanTree_syms)+
    from b have nn: "root \<noteq> Nullptr"
      by (intro tree_invariant_not_null buildHuffmanTree_invariant)
    from b assms(2) have nl: "\<not> isLeaf root" by (rule buildHuffmanTree_two_children)
    have m: "map_of ?cc c = (if c \<in> set (leaf_syms root) then Some (path_to root c) else None)"
      for c
      by (simp add: generateCharCodes_map_of [OF dl])
    have keys: "fst ` set ?cc = fst ` set char_frequencies"
      using sl by (simp add: generateCharCodes_keys)
    have every: "\<forall>c \<in> fst ` set char_frequencies. \<exists>code. map_of ?cc c = Some code \<and> code \<noteq> []"
      using sl nn nl by (simp add: m path_to_nonempty)
    have path: "code \<noteq> [] \<and> set code \<subseteq> {CHR ''0'', CHR ''1''} \<and>
        node_at root code \<noteq> Nullptr \<and> isLeaf (node_at root code) \<and>
        get_val (node_at root code) = c"
      if "map_of ?cc c = Some code" for c code
    proof -
      from that have c: "c \<in> set (leaf_syms root)" and code: "code = path_to root c"
        by (auto simp: m split: if_splits)
      show ?thesis
        using path_to_leaf [OF c] path_to_nonempty [OF nn nl, of c] code by simp
    qed
    have pf: "\<not> prefix code1 code2"
      if "c1 \<noteq> c2 \<and> map_of ?cc c1 = Some code1 \<and> map_of ?cc c2 = Some code2"
      for c1 c2 code1 code2
    proof -
      from that have "c1 \<in> set (leaf_syms root)" "code1 = path_to root c1"
        "c2 \<in> set (leaf_syms root)" "code2 = path_to root c2" "c1 \<noteq> c2"
        by (auto simp: m split: if_splits)
      then show ?thesis by (simp add: path_to_prefix_free)
    qed
    from keys every path pf show ?thesis by blast
  qed
  from ex main show ?thesis by blast
qed

theorem generateCharCodes_prefix_free_witness:
  "distinct (map fst [(CHR ''a'', 3), (CHR ''b'', 2), (CHR ''c'', 1 :: cint)]) \<and>
   2 \<le> length [(CHR ''a'', 3), (CHR ''b'', 2), (CHR ''c'', 1 :: cint)] \<and>
   buildHuffmanTree [(CHR ''a'', 3), (CHR ''b'', 2), (CHR ''c'', 1)]
     (Node (CHR 0x00) 6
        (Node (CHR 0x00) 3 (Node (CHR ''c'') 1 Nullptr Nullptr) (Node (CHR ''b'') 2 Nullptr Nullptr))
        (Node (CHR ''a'') 3 Nullptr Nullptr)) \<and>
   generateCharCodes
     (Node (CHR 0x00) 6
        (Node (CHR 0x00) 3 (Node (CHR ''c'') 1 Nullptr Nullptr) (Node (CHR ''b'') 2 Nullptr Nullptr))
        (Node (CHR ''a'') 3 Nullptr Nullptr)) [] [] = [(CHR ''c'', ''00''), (CHR ''b'', ''01''), (CHR ''a'', ''1'')] \<and>
   \<not> prefix ''1'' ''01'' \<and> \<not> prefix ''00'' ''01'' \<and> \<not> prefix ''01'' ''00''"
  using generateCharCodes_prefix_free [of "[(CHR ''a'', 3), (CHR ''b'', 2), (CHR ''c'', 1)]"]
    example_build
  by simp




text \<open>
  C7. With a code table of one entry, \<open>encodeText\<close> encodes each symbol as the bit
  \<open>0\<close>: one symbol gives \<open>0\<close>, and an input gives as many \<open>0\<close> characters as it
  has symbols. (The entry of the table itself, the empty path to the root, is not
  read.) An input with one distinct symbol has such a table, and \<open>decoder\<close> decodes
  its encoding back to the input. The input \<open>aaaa\<close> encodes to \<open>0000\<close>, which
  decodes to \<open>aaaa\<close>, also through the serialized tree.
\<close>

theorem single_symbol_encoding:
  "(length char_codes = 1 \<longrightarrow>
      encodeText [c] char_codes = Inr ''0'' \<and>
      encodeText input_text char_codes = Inr (replicate (length input_text) (CHR ''0'')) \<and>
      length (replicate (length input_text) (CHR ''0'')) = length input_text) \<and>
   (input_text \<noteq> [] \<and> card (set input_text) = 1 \<longrightarrow>
      (\<exists>root. buildHuffmanTree (countCharFrequencies input_text) root) \<and>
      (\<forall>root. buildHuffmanTree (countCharFrequencies input_text) root \<longrightarrow>
         length (generateCharCodes root [] []) = 1 \<and>
         encodeText input_text (generateCharCodes root [] [])
           = Inr (replicate (length input_text) (CHR ''0'')) \<and>
         decoder_text (replicate (length input_text) (CHR ''0'')) root = Inr input_text)) \<and>
   (\<exists>root. buildHuffmanTree (countCharFrequencies ''aaaa'') root) \<and>
   (\<forall>root. buildHuffmanTree (countCharFrequencies ''aaaa'') root \<longrightarrow>
      encodeText ''aaaa'' (generateCharCodes root [] []) = Inr ''0000'' \<and>
      decoder_text ''0000'' root = Inr ''aaaa'' \<and>
      decoder (serializeHuffmanTree root) ''0000'' = Inr ''aaaa'')"
proof -
  have one: "length (generateCharCodes root [] []) = 1 \<and>
         encodeText b (generateCharCodes root [] []) = Inr (replicate (length b) (CHR ''0'')) \<and>
         decoder_text (replicate (length b) (CHR ''0'')) root = Inr b"
    if ne: "b \<noteq> []" and card: "card (set b) = 1"
      and b: "buildHuffmanTree (countCharFrequencies b) root" for b root
  proof -
    from card have "length (countCharFrequencies b) = 1"
      by (simp add: countCharFrequencies_length)
    then obtain s n where f: "countCharFrequencies b = [(s, n)]"
      by (cases "countCharFrequencies b") auto
    with b have root: "root = Node s n Nullptr Nullptr"
      by (simp add: buildHuffmanTree_single)
    then have len: "length (generateCharCodes root [] []) = 1" by simp
    then have e: "encodeText b (generateCharCodes root [] [])
        = Inr (replicate (length b) (CHR ''0''))"
      by (simp add: encodeText_def)
    from round_trip [OF b countCharFrequencies_keys(1), of b] e
    have "decoder_text (replicate (length b) (CHR ''0'')) root = Inr b"
      by (auto simp: countCharFrequencies_keys(2))
    with len e show ?thesis by simp
  qed
  have aaaa: "encodeText ''aaaa'' (generateCharCodes root [] []) = Inr ''0000'' \<and>
      decoder_text ''0000'' root = Inr ''aaaa'' \<and>
      decoder (serializeHuffmanTree root) ''0000'' = Inr ''aaaa''"
    if b: "buildHuffmanTree (countCharFrequencies ''aaaa'') root" for root
  proof -
    have "countCharFrequencies ''aaaa'' = [(CHR ''a'', 4)]"
      by (simp add: countCharFrequencies_def increment_def)
    with b have "root = Node (CHR ''a'') 4 Nullptr Nullptr"
      by (simp add: buildHuffmanTree_single)
    then show ?thesis
      by (simp add: encodeText_def decoder_def decoder_text_def deserializeHuffmanTree_def
          deserializeHuffmanTreeHelper.simps string_at_def)
  qed
  have ex: "\<exists>root. buildHuffmanTree (countCharFrequencies b) root" if "b \<noteq> []" for b
    using that by (intro buildHuffmanTree_returns countCharFrequencies_nonempty)
  have enc: "encodeText [c] char_codes = Inr ''0'' \<and>
      encodeText input_text char_codes = Inr (replicate (length input_text) (CHR ''0'')) \<and>
      length (replicate (length input_text) (CHR ''0'')) = length input_text"
    if "length char_codes = 1"
    using that by (simp add: encodeText_def)
  show ?thesis
    using one [of input_text] aaaa ex [of input_text] ex [of "''aaaa''"] enc by blast
qed

theorem single_symbol_encoding_witness:
  "length [(CHR ''a'', '''')] = 1 \<and>
   encodeText ''a'' [(CHR ''a'', '''')] = Inr ''0'' \<and>
   ''aaaa'' \<noteq> [] \<and> card (set ''aaaa'') = 1 \<and>
   buildHuffmanTree (countCharFrequencies ''aaaa'') (Node (CHR ''a'') 4 Nullptr Nullptr) \<and>
   generateCharCodes (Node (CHR ''a'') 4 Nullptr Nullptr) [] [] = [(CHR ''a'', '''')] \<and>
   encodeText ''aaaa'' [(CHR ''a'', '''')] = Inr ''0000'' \<and>
   decoder_text ''0000'' (Node (CHR ''a'') 4 Nullptr Nullptr) = Inr ''aaaa'' \<and>
   decoder (serializeHuffmanTree (Node (CHR ''a'') 4 Nullptr Nullptr)) ''0000'' = Inr ''aaaa''"
  using single_symbol_encoding [of "[(CHR ''a'', '''')]" "CHR ''a''" "''aaaa''"]
    example_build_aaaa
  by auto

text \<open>
  C10, as the code has it. With a code table of exactly one entry, \<open>encodeText\<close>
  raises nothing and returns as many \<open>0\<close> characters as the input has symbols,
  whatever the symbols are and whether or not the table has them. \<open>encodeText\<close>
  fails exactly when the table does not have exactly one entry and the input has a
  symbol without an entry; the error is then the \<^verbatim>\<open>std::out_of_range\<close> of the
  lookup.
\<close>

theorem encodeText_single_entry:
  "(length char_codes = 1 \<longrightarrow>
      encodeText input_text char_codes = Inr (replicate (length input_text) (CHR ''0''))) \<and>
   (encodeText input_text char_codes = Inl e \<longleftrightarrow>
      length char_codes \<noteq> 1 \<and> e = Out_of_range \<and>
      (\<exists>c \<in> set input_text. map_of char_codes c = None))"
  by (auto simp: encodeText_def encodeText_loop_error)

theorem encodeText_single_entry_witness:
  "length [(CHR ''a'', '''')] = 1 \<and>
   map_of [(CHR ''a'', '''')] (CHR ''b'') = None \<and>
   encodeText ''abc'' [(CHR ''a'', '''')] = Inr ''000'' \<and>
   length [(CHR ''a'', ''0''), (CHR ''c'', ''1'')] \<noteq> 1 \<and>
   map_of [(CHR ''a'', ''0''), (CHR ''c'', ''1'')] (CHR ''b'') = None \<and>
   encodeText ''abc'' [(CHR ''a'', ''0''), (CHR ''c'', ''1'')] = Inl Out_of_range"
  using encodeText_single_entry [of "[(CHR ''a'', '''')]" "''abc''" Out_of_range]
    encodeText_single_entry [of "[(CHR ''a'', ''0''), (CHR ''c'', ''1'')]" "''abc''" Out_of_range]
  by simp

text \<open>
  C10, as the claim states it, fails on a table with no entry: it does not have two
  or more entries, and the lookup of the first symbol fails.
\<close>

theorem encodeText_single_entry_counterexample:
  "length ([] :: (char, string) unordered_map) = 0 \<and> encodeText ''a'' [] = Inl Out_of_range"
  by (simp add: encodeText_def)

end
